theory Spec2Isabelle
  imports Main "HOL-Library.AList" "HOL-Library.Char_ord" "HOL-Library.List_Lexorder"
begin

section \<open>Bytes, machine integers, failures\<close>

text \<open>
  A file is a sequence of bytes; a Go \<open>string\<close> or \<open>[]byte\<close> is a \<open>char list\<close>
  (a \<open>char\<close> is one byte). The two delimiters are the package-level variables of
  \<open>main.go\<close>.
\<close>

type_synonym byte = char

definition StationDelimeter :: byte where
  "StationDelimeter = CHR '';''"

definition MeasurementDelimeter :: byte where
  "MeasurementDelimeter = CHR 0x0A"

text \<open>
  \<open>int64\<close> arithmetic: the mathematical result, wrapped into
  \<open>[-2^63, 2^63)\<close>. Go's integer division truncates towards zero.
\<close>

definition wrap64 :: "int \<Rightarrow> int" where
  "wrap64 x = (x + 2 ^ 63) mod 2 ^ 64 - 2 ^ 63"

definition quo64 :: "int \<Rightarrow> int \<Rightarrow> int" where
  "quo64 a b = wrap64 (sgn a * sgn b * (\<bar>a\<bar> div \<bar>b\<bar>))"

text \<open>
  What a function of the program can end with besides its value: an \<open>error\<close> it
  returns (or sends), or a run-time panic, which ends the whole process.
\<close>

datatype error =
    OpenError
  | NumRangesTooLarge int int
  | InvalidRangeEnd int
  | NumError string
  | MissingEntry string

datatype panic = IntegerDivideByZero | IndexOutOfRange | NilDereference

datatype failure = Err error | Panic panic

section \<open>The range partitioner: \<open>determineRanges\<close>\<close>

record Range =
  Begin :: int
  End :: int

text \<open>
  The open file as \<open>determineRanges\<close> uses it: the content, the current offset and
  the one-byte buffer \<open>b\<close>. The results of \<open>f.Seek\<close> and \<open>f.Read\<close> are not
  looked at by the source, so the model keeps what they leave behind:
  \<^item> \<open>f.Seek(off, 0)\<close> with a negative \<open>off\<close> fails and leaves the offset where it
    was; any other \<open>off\<close> (also one past the end of the file) becomes the offset;
  \<^item> \<open>f.Read(b)\<close> at an offset inside the file stores that byte in \<open>b[0]\<close> and
    advances the offset by one; at or past the end of the file it reads nothing
    and \<open>b[0]\<close> keeps the byte of the last successful read.
\<close>

record fstate =
  offset :: int
  b0 :: byte

definition Seek0 :: "int \<Rightarrow> fstate \<Rightarrow> fstate" where
  "Seek0 off s = (if off < 0 then s else s\<lparr>offset := off\<rparr>)"

definition Read1 :: "byte list \<Rightarrow> fstate \<Rightarrow> fstate" where
  "Read1 file s =
     (if 0 \<le> offset s \<and> offset s < int (length file)
      then \<lparr>offset = offset s + 1, b0 = file ! nat (offset s)\<rparr>
      else s)"

text \<open>
  The loop \<open>for { f.Seek(e, 0); f.Read(b); if b[0] == delim { e++; break }; e-- }\<close>
  that moves a range end backwards. It has no other exit, so it is a partial
  function: \<open>None\<close> is the loop that never ends.
\<close>

partial_function (option) adjustEnd ::
  "byte list \<Rightarrow> byte \<Rightarrow> int \<Rightarrow> fstate \<Rightarrow> (int \<times> fstate) option" where
  "adjustEnd file delim e s =
     (let s' = Read1 file (Seek0 e s)
      in if b0 s' = delim then Some (wrap64 (e + 1), s')
         else adjustEnd file delim (wrap64 (e - 1)) s')"

declare adjustEnd.simps [code]

text \<open>
  The loop \<open>for i := int64(1); i < n-1; i++\<close> over the middle ranges. The state is
  the slice \<open>ranges\<close> built so far and the file.
\<close>

function middleRanges ::
  "byte list \<Rightarrow> byte \<Rightarrow> int \<Rightarrow> int \<Rightarrow> int \<Rightarrow> Range list \<Rightarrow> fstate
     \<Rightarrow> (Range list \<times> fstate) option" where
  "middleRanges file delim approxSize n i ranges s =
     (if i < wrap64 (n - 1) then
        (let previous = ranges ! nat (i - 1);
             begin = End previous;
             end0 = wrap64 (begin + approxSize)
         in case adjustEnd file delim end0 s of
              None \<Rightarrow> None
            | Some (e, s') \<Rightarrow>
                middleRanges file delim approxSize n (i + 1)
                  (ranges @ [\<lparr>Begin = begin, End = e\<rparr>]) s')
      else Some (ranges, s))"
  by pat_completeness auto
termination
  by (relation "measure (\<lambda>(file, delim, approxSize, n, i, ranges, s). nat (wrap64 (n - 1) - i))")
     auto

text \<open>
  \<open>determineRanges\<close>. The file is \<open>None\<close> when it cannot be opened. The outer
  \<open>option\<close> is \<open>None\<close> when the call does not return.
\<close>

definition determineRanges ::
  "byte list option \<Rightarrow> int \<Rightarrow> byte \<Rightarrow> (failure + Range list) option" where
  "determineRanges f n delim =
     (case f of
        None \<Rightarrow> Some (Inl (Err OpenError))
      | Some file \<Rightarrow>
          (let length = int (length file) in
           if n = 1 then Some (Inr [\<lparr>Begin = 0, End = length\<rparr>])
           else if n = 0 then Some (Inl (Panic IntegerDivideByZero))
           else
             (let approxSize = quo64 length n in
              if approxSize = 0 then Some (Inl (Err (NumRangesTooLarge n length)))
              else
                (case adjustEnd file delim approxSize \<lparr>offset = length, b0 = CHR 0x00\<rparr> of
                   None \<Rightarrow> None
                 | Some (e, s) \<Rightarrow>
                     if e < 0 then Some (Inl (Err (InvalidRangeEnd e)))
                     else
                       (case middleRanges file delim approxSize n 1
                               [\<lparr>Begin = 0, End = e\<rparr>] s of
                          None \<Rightarrow> None
                        | Some (ranges, s') \<Rightarrow>
                            Some (Inr (ranges @
                              [\<lparr>Begin = End (ranges ! (List.length ranges - 1)),
                                End = length\<rparr>])))))))"

section \<open>The chunk aggregator: \<open>task\<close>\<close>

subsection \<open>Statistics and the local mapping\<close>

text \<open>
  The struct \<open>Measurements\<close>. The type \<open>'v\<close> stands for \<open>float32\<close>: the model
  takes its \<open>+\<close>, \<open>min\<close> and \<open>max\<close> from a linearly ordered type with an
  addition and says nothing about rounding or NaN. The fields carry the suffix
  \<open>_m\<close> (\<open>Min\<close> and \<open>Max\<close> are constants of the library).
\<close>

record 'v Measurements =
  Min_m :: 'v
  Max_m :: 'v
  Sum_m :: 'v
  Count_m :: int

text \<open>
  A \<open>map[string]*Measurements\<close> is an association list with distinct keys, in
  the order of first insertion; every pointer is held by one map only, so the
  update through the pointer is the replacement of the entry.
\<close>

type_synonym 'v readings = "(string \<times> 'v Measurements) list"

record 'v AggregationResult =
  Measurements :: "'v readings"
  Error :: "error option"

text \<open>Lines 191 to 205: one record with station \<open>station\<close> and value \<open>m32\<close>.\<close>

definition observe :: "string \<Rightarrow> 'v::{linorder,plus} \<Rightarrow> 'v readings \<Rightarrow> 'v readings" where
  "observe station m32 readings =
     (case map_of readings station of
        Some v \<Rightarrow>
          AList.update station
            \<lparr>Min_m = min (Min_m v) m32, Max_m = max (Max_m v) m32,
             Sum_m = Sum_m v + m32, Count_m = Count_m v + 1\<rparr> readings
      | None \<Rightarrow>
          readings @ [(station, \<lparr>Min_m = m32, Max_m = m32, Sum_m = m32, Count_m = 1\<rparr>)])"

subsection \<open>The record reader\<close>

text \<open>
  \<open>io.NewSectionReader(f, off, n)\<close> gives the bytes of the file from \<open>off\<close> up to
  its limit \<open>off + n\<close> (the largest \<open>int64\<close> when that sum overflows); a negative
  \<open>off\<close> makes every read fail.
\<close>

definition sectionBytes :: "byte list \<Rightarrow> int \<Rightarrow> int \<Rightarrow> byte list" where
  "sectionBytes file off n =
     (let limit = (if off \<le> 2 ^ 63 - 1 - n then n + off else 2 ^ 63 - 1)
      in if off < 0 then [] else take (nat (limit - off)) (drop (nat off) file))"

text \<open>
  \<open>bufio.Scanner\<close> with its default split function \<open>ScanLines\<close>: the tokens are
  the lines, without the newline and without one carriage return before it; a
  last line without newline is a token when it is not empty. A line needs room
  in the scanner's buffer, which grows to \<open>MaxScanTokenSize\<close> bytes and no
  further: at a line of that many bytes or more, \<open>Scan\<close> returns false and the
  scanner's error is \<open>ErrTooLong\<close>. The result is the tokens that \<open>Scan\<close>
  delivers and the value of \<open>scanner.Err()\<close> behind them. The scanner is
  library code; this is its documented behaviour on a section that ends inside
  the file.
\<close>

datatype scan_error = ErrTooLong | ErrInvalid

definition MaxScanTokenSize :: nat where
  "MaxScanTokenSize = 64 * 1024"

definition dropCR :: "byte list \<Rightarrow> byte list" where
  "dropCR data = (if data \<noteq> [] \<and> last data = CHR 0x0D then butlast data else data)"

fun scanLines :: "nat \<Rightarrow> byte list \<Rightarrow> byte list \<Rightarrow> byte list list \<times> scan_error option" where
  "scanLines maxTok cur [] =
     (if cur = [] then ([], None)
      else if maxTok \<le> length cur then ([], Some ErrTooLong)
      else ([dropCR cur], None))"
| "scanLines maxTok cur (c # cs) =
     (if c = CHR 0x0A then
        (if maxTok \<le> length cur then ([], Some ErrTooLong)
         else (case scanLines maxTok [] cs of (toks, e) \<Rightarrow> (dropCR cur # toks, e)))
      else scanLines maxTok (cur @ [c]) cs)"

subsection \<open>The loop over the records\<close>

text \<open>
  Lines 172 to 178, \<open>for { if buffer[pos] == StationDelimeter { break }; pos++ }\<close>:
  Go checks every index against the length of the slice and panics outside it.
\<close>

function findStationDelimeter :: "byte list \<Rightarrow> nat \<Rightarrow> panic + nat" where
  "findStationDelimeter buffer pos =
     (if length buffer \<le> pos then Inl IndexOutOfRange
      else if buffer ! pos = StationDelimeter then Inr pos
      else findStationDelimeter buffer (pos + 1))"
  by pat_completeness auto
termination
  by (relation "measure (\<lambda>(buffer, pos). length buffer - pos)") auto

text \<open>
  The body of \<open>for scanner.Scan()\<close>, over the tokens the scanner delivers. The
  state is the local mapping and the results sent on the channel so far. The
  parameter \<open>ParseFloat\<close> is \<open>strconv.ParseFloat(_, 32)\<close> followed by the
  conversion to \<open>float32\<close>; like the library function it returns a value and an
  error. After a failed parse the source sends the error and goes on with the
  value it got: there is no \<open>return\<close> behind the send. The third component of
  the result is the panic that ended the loop, if one did.
\<close>

fun taskLoop ::
  "(string \<Rightarrow> 'v \<times> error option) \<Rightarrow> byte list list \<Rightarrow> 'v::{linorder,plus} readings
     \<Rightarrow> 'v AggregationResult list
     \<Rightarrow> 'v readings \<times> 'v AggregationResult list \<times> panic option" where
  "taskLoop ParseFloat [] readings sent = (readings, sent, None)"
| "taskLoop ParseFloat (buffer # rest) readings sent =
     (case findStationDelimeter buffer 0 of
        Inl p \<Rightarrow> (readings, sent, Some p)
      | Inr stationDelimeterPos \<Rightarrow>
          (let station = take stationDelimeterPos buffer;
               measurementStr = drop (stationDelimeterPos + 1) buffer;
               (m32, err) = ParseFloat measurementStr;
               sent' = (case err of
                          None \<Rightarrow> sent
                        | Some e \<Rightarrow> sent @ [\<lparr>Measurements = [], Error = Some e\<rparr>])
           in taskLoop ParseFloat rest (observe station m32 readings) sent'))"

text \<open>
  \<open>task\<close>: the results it sends on the channel, in order, and the panic that
  ended it, if one did. After a failed \<open>os.OpenFile\<close> the source sends the error
  and goes on with the nil file, on which every read fails: the scanner
  delivers no token. The scanner's error is never looked at.
\<close>

definition task ::
  "(string \<Rightarrow> 'v \<times> error option) \<Rightarrow> byte list option \<Rightarrow> Range
     \<Rightarrow> 'v::{linorder,plus} AggregationResult list \<times> panic option" where
  "task ParseFloat f r =
     (let sent0 = (case f of
                     None \<Rightarrow> [\<lparr>Measurements = [], Error = Some OpenError\<rparr>]
                   | Some file \<Rightarrow> []);
          (tokens, scanErr) =
             (case f of
                None \<Rightarrow> ([], Some ErrInvalid)
              | Some file \<Rightarrow>
                  scanLines MaxScanTokenSize []
                    (sectionBytes file (Begin r) (wrap64 (End r - Begin r))))
      in case taskLoop ParseFloat tokens [] sent0 of
           (readings, sent, Some p) \<Rightarrow> (sent, Some p)
         | (readings, sent, None) \<Rightarrow>
             (sent @ [\<lparr>Measurements = readings, Error = None\<rparr>], None))"

section \<open>The merger and the formatter: \<open>run\<close> and \<open>writeOutput\<close>\<close>

text \<open>
  Lines 243 to 257 of \<open>run\<close>: one entry of a worker's mapping is combined into
  the mapping \<open>readings\<close> of the merger. A new entry is a copy.
\<close>

definition mergeEntry ::
  "'v::{linorder,plus} readings \<Rightarrow> string \<times> 'v Measurements \<Rightarrow> 'v readings" where
  "mergeEntry readings entry =
     (case entry of (station, measurements) \<Rightarrow>
        (case map_of readings station of
           Some v \<Rightarrow>
             AList.update station
               \<lparr>Min_m = min (Min_m v) (Min_m measurements),
                Max_m = max (Max_m v) (Max_m measurements),
                Sum_m = Sum_m v + Sum_m measurements,
                Count_m = Count_m v + Count_m measurements\<rparr> readings
         | None \<Rightarrow>
             readings @
               [(station, \<lparr>Min_m = Min_m measurements, Max_m = Max_m measurements,
                           Sum_m = Sum_m measurements, Count_m = Count_m measurements\<rparr>)]))"

text \<open>
  The loop \<open>for station, measurements := range subreadings.Measurements\<close>, in the
  order of the association list.
\<close>

definition mergeReadings ::
  "'v::{linorder,plus} readings \<Rightarrow> 'v readings \<Rightarrow> 'v readings" where
  "mergeReadings readings subreadings = foldl mergeEntry readings subreadings"

text \<open>
  The loop \<open>for i := int64(0); i < parallel; i++\<close> of \<open>run\<close> that receives from the
  channel. The list \<open>chan\<close> holds the results in the order in which the channel
  delivers them. The loop returns at the first result with an error. The result
  is what the loop ends with and the results it has not received: \<open>Inl e\<close> for
  \<open>return "", e\<close>, \<open>Inr readings\<close> when the loop is through, and \<open>None\<close> when
  it waits for a result that never comes.
\<close>

function mergeLoop ::
  "int \<Rightarrow> int \<Rightarrow> 'v::{linorder,plus} AggregationResult list \<Rightarrow> 'v readings
     \<Rightarrow> (error + 'v readings) option \<times> 'v AggregationResult list" where
  "mergeLoop parallel i chan readings =
     (if i < parallel then
        (case chan of
           [] \<Rightarrow> (None, [])
         | subreadings # chan' \<Rightarrow>
             (case Error subreadings of
                Some e \<Rightarrow> (Some (Inl e), chan')
              | None \<Rightarrow>
                  mergeLoop parallel (i + 1) chan'
                    (mergeReadings readings (Measurements subreadings))))
      else (Some (Inr readings), chan))"
  by pat_completeness auto
termination
  by (relation "measure (\<lambda>(parallel, i, chan, readings). nat (parallel - i))") auto

text \<open>
  \<open>writeOutput\<close>. Its parameters \<open>meanOf\<close> and \<open>format1\<close> are the division
  \<open>v.Sum / float32(v.Count)\<close> and the verb \<open>%.1f\<close> of \<open>fmt.Sprintf\<close>. A key that
  the mapping does not have gives the nil pointer and \<open>ok = false\<close>; the source
  reads \<open>v.Sum\<close> through the pointer before it looks at \<open>ok\<close>.
\<close>

fun writeEntries ::
  "('v \<Rightarrow> int \<Rightarrow> 'v) \<Rightarrow> ('v \<Rightarrow> string) \<Rightarrow> int \<Rightarrow> 'v readings \<Rightarrow> int \<Rightarrow> string list \<Rightarrow> string
     \<Rightarrow> failure + string" where
  "writeEntries meanOf format1 numStations readings i [] buffer = Inr buffer"
| "writeEntries meanOf format1 numStations readings i (station # rest) buffer =
     (let v = map_of readings station;
          ok = (v \<noteq> None)
      in case v of
           None \<Rightarrow> Inl (Panic NilDereference)
         | Some m \<Rightarrow>
             (let mean = meanOf (Sum_m m) (Count_m m) in
              if \<not> ok then Inl (Err (MissingEntry station))
              else
                (let buffer1 = buffer @ station @ ''='' @ format1 (Min_m m) @ ''/'' @
                                 format1 mean @ ''/'' @ format1 (Max_m m);
                     buffer2 = (if i < numStations - 1 then buffer1 @ '', '' else buffer1)
                 in writeEntries meanOf format1 numStations readings (i + 1) rest buffer2)))"

definition writeOutput ::
  "('v \<Rightarrow> int \<Rightarrow> 'v) \<Rightarrow> ('v \<Rightarrow> string) \<Rightarrow> string list \<Rightarrow> 'v readings \<Rightarrow> failure + string" where
  "writeOutput meanOf format1 stations readings =
     (let numStations = int (length stations)
      in case writeEntries meanOf format1 numStations readings 0 stations ''{'' of
           Inl f \<Rightarrow> Inl f
         | Inr buffer \<Rightarrow> Inr (buffer @ ''}''))"

text \<open>
  The end of \<open>run\<close>, behind the receiving loop: the keys of the merged mapping,
  sorted as \<open>sort.Strings\<close> sorts them (byte by byte), and the formatter.
\<close>

definition report ::
  "('v \<Rightarrow> int \<Rightarrow> 'v) \<Rightarrow> ('v \<Rightarrow> string) \<Rightarrow> 'v readings \<Rightarrow> failure + string" where
  "report meanOf format1 readings =
     (let stations = sort (map fst readings)
      in writeOutput meanOf format1 stations readings)"

section \<open>Notions used to state the properties\<close>

text \<open>
  The station and the value string of a token that has a field delimiter, as
  \<open>task\<close> cuts them out: the bytes before the first delimiter and the bytes
  behind it.
\<close>

definition stationOf :: "byte list \<Rightarrow> string" where
  "stationOf buffer = takeWhile (\<lambda>c. c \<noteq> StationDelimeter) buffer"

definition valueOf :: "byte list \<Rightarrow> string" where
  "valueOf buffer = drop (length (stationOf buffer) + 1) buffer"

text \<open>The observation that a token stands for, and a mapping after a list of observations.\<close>

definition observation :: "(string \<Rightarrow> 'v \<times> error option) \<Rightarrow> byte list \<Rightarrow> string \<times> 'v" where
  "observation ParseFloat buffer = (stationOf buffer, fst (ParseFloat (valueOf buffer)))"

definition observeAll :: "'v::{linorder,plus} readings \<Rightarrow> (string \<times> 'v) list \<Rightarrow> 'v readings" where
  "observeAll readings obs = foldl (\<lambda>rd (station, m32). observe station m32 rd) readings obs"

text \<open>The error results that the failed parses of a list of tokens send.\<close>

definition parseErrors ::
  "(string \<Rightarrow> 'v \<times> error option) \<Rightarrow> byte list list \<Rightarrow> 'v AggregationResult list" where
  "parseErrors ParseFloat tokens =
     concat (map (\<lambda>buffer. case snd (ParseFloat (valueOf buffer)) of
                              None \<Rightarrow> []
                            | Some e \<Rightarrow> [\<lparr>Measurements = [], Error = Some e\<rparr>]) tokens)"


text \<open>
  The adjusting loop of the first range goes through three phases. Backwards
  from the approximate size to 0: the bytes behind the probe up to the
  approximate size are no delimiters. Below 0: \<open>f.Seek\<close> fails, so every read
  takes the next byte from where the last one stopped, and at probe \<open>e\<close> the
  offset is \<open>- e\<close>; nothing read so far is a delimiter. And once the whole file
  is read without a delimiter, nothing changes any more. When the loop ends,
  the buffer holds the delimiter, and the end found is either negative or one
  past a delimiter at or before the approximate size.
\<close>

definition firstInv :: "byte list \<Rightarrow> byte \<Rightarrow> int \<Rightarrow> int \<Rightarrow> fstate \<Rightarrow> bool" where
  "firstInv fl d a e s \<longleftrightarrow>
     (0 \<le> e \<and> e \<le> a \<and> (\<forall>j. e < j \<and> j \<le> a \<longrightarrow> fl ! nat j \<noteq> d)) \<or>
     (e < 0 \<and> - int (length fl) \<le> e \<and> offset s = - e \<and> b0 s \<noteq> d \<and>
        (\<forall>j. 0 \<le> j \<and> (j \<le> a \<or> j < - e) \<and> j < int (length fl) \<longrightarrow> fl ! nat j \<noteq> d)) \<or>
     (d \<notin> set fl \<and> b0 s \<noteq> d)"

definition firstPost :: "byte list \<Rightarrow> byte \<Rightarrow> int \<Rightarrow> int \<times> fstate \<Rightarrow> bool" where
  "firstPost fl d a r \<longleftrightarrow>
     b0 (snd r) = d \<and>
     (fst r < 0 \<or> (1 \<le> fst r \<and> fst r \<le> a + 1 \<and> fl ! nat (fst r - 1) = d))"

text \<open>
  A list of ranges that begins at \<open>b\<close> and in which every range begins where
  the one before it ends.
\<close>

fun chained :: "int \<Rightarrow> Range list \<Rightarrow> bool" where
  "chained b [] = True"
| "chained b (r # rs) = (Begin r = b \<and> chained (End r) rs)"

text \<open>
  What the loop over the middle ranges keeps: the ranges built so far begin at
  0, are chained and not reversed, and every end is at least 1 and, when it is
  inside the file, one past a delimiter. The last conjunct bounds the ends, so
  that no addition overflows.
\<close>

definition goodRanges :: "byte list \<Rightarrow> byte \<Rightarrow> int \<Rightarrow> Range list \<Rightarrow> bool" where
  "goodRanges fl d a ranges \<longleftrightarrow>
     ranges \<noteq> [] \<and> chained 0 ranges \<and>
     (\<forall>r\<in>set ranges. Begin r \<le> End r \<and> 1 \<le> End r \<and>
        (End r \<le> int (length fl) \<longrightarrow> fl ! nat (End r - 1) = d)) \<and>
     End (last ranges) \<le> int (length ranges) * (a + 1)"

text \<open>
  The property of claim C1, in the words of the specification: exactly \<open>n\<close>
  ranges, contiguous from 0 to the length of the file, none reversed, every
  interior boundary inside the file and one byte past a delimiter.
\<close>

definition isPartition :: "byte list \<Rightarrow> byte \<Rightarrow> int \<Rightarrow> Range list \<Rightarrow> bool" where
  "isPartition fl d n rs \<longleftrightarrow>
     int (length rs) = n \<and> rs \<noteq> [] \<and> chained 0 rs \<and> End (last rs) = int (length fl) \<and>
     (\<forall>r\<in>set rs. Begin r \<le> End r) \<and>
     (\<forall>r\<in>set (butlast rs). 1 \<le> End r \<and> End r \<le> int (length fl) \<and>
        fl ! nat (End r - 1) = d)"

text \<open>
  The entry for a key after the merge of an entry \<open>m\<close> for it: a copy of \<open>m\<close>
  when the key is new (\<open>old\<close> is \<open>None\<close>), the combination otherwise.
\<close>

definition combined :: "'v::{linorder,plus} Measurements option \<Rightarrow> 'v Measurements \<Rightarrow> 'v Measurements" where
  "combined old m =
     (case old of
        None \<Rightarrow> \<lparr>Min_m = Min_m m, Max_m = Max_m m, Sum_m = Sum_m m, Count_m = Count_m m\<rparr>
      | Some v \<Rightarrow> \<lparr>Min_m = min (Min_m v) (Min_m m), Max_m = max (Max_m v) (Max_m m),
                   Sum_m = Sum_m v + Sum_m m, Count_m = Count_m v + Count_m m\<rparr>)"

section \<open>Properties of the range partitioner\<close>

subsection \<open>What the one-byte buffer can hold\<close>

lemma Seek0_b0: "b0 (Seek0 e s) = b0 s"
  by (simp add: Seek0_def)

lemma Read1_b0: "b0 (Read1 fl s) = b0 s \<or> b0 (Read1 fl s) \<in> set fl"
  by (auto simp: Read1_def)

text \<open>
  The adjusting loop leaves only through \<open>b[0] == delim\<close>, and \<open>b[0]\<close> is either
  what it was or a byte of the file: a result means that the delimiter is a byte
  of the file, or was in the buffer to begin with.
\<close>

lemma adjustEnd_Some_delim:
  assumes "adjustEnd fl delim e s = Some r"
  shows "delim \<in> set fl \<or> b0 s = delim"
  using assms
proof (rule adjustEnd.raw_induct [rotated 1, where P = "\<lambda>fl d e s r. d \<in> set fl \<or> b0 s = d"])
  fix g :: "byte list \<Rightarrow> byte \<Rightarrow> int \<Rightarrow> fstate \<Rightarrow> (int \<times> fstate) option"
  fix fl d e' s' r'
  assume IH: "\<And>d e s b y. g d e s b = Some y \<Longrightarrow> e \<in> set d \<or> b0 b = e"
  assume step: "(let t = Read1 fl (Seek0 e' s')
                 in if b0 t = d then Some (wrap64 (e' + 1), t)
                    else g fl d (wrap64 (e' - 1)) t) = Some r'"
  show "d \<in> set fl \<or> b0 s' = d"
  proof (cases "b0 (Read1 fl (Seek0 e' s')) = d")
    case True
    then show ?thesis
      using Read1_b0 [of fl "Seek0 e' s'"] by (auto simp: Seek0_b0)
  next
    case False
    with step have "g fl d (wrap64 (e' - 1)) (Read1 fl (Seek0 e' s')) = Some r'"
      by (simp add: Let_def)
    from IH [OF this] False show ?thesis by simp
  qed
qed

lemma adjustEnd_diverges:
  "delim \<notin> set fl \<Longrightarrow> b0 s \<noteq> delim \<Longrightarrow> adjustEnd fl delim e s = None"
  by (cases "adjustEnd fl delim e s") (auto dest: adjustEnd_Some_delim)

text \<open>
  So on a file without the delimiter the partitioner does not return, whenever it
  gets as far as the first adjusting loop.
\<close>

lemma determineRanges_no_delimiter:
  assumes "delim \<notin> set fl" and "delim \<noteq> CHR 0x00"
    and "n \<noteq> 1" and "n \<noteq> 0" and "quo64 (int (length fl)) n \<noteq> 0"
  shows "determineRanges (Some fl) n delim = None"
proof -
  have "adjustEnd fl delim (quo64 (int (length fl)) n)
          \<lparr>offset = int (length fl), b0 = CHR 0x00\<rparr> = None"
    using assms(1,2) by (intro adjustEnd_diverges) simp_all
  with assms(3-5) show ?thesis
    by (simp add: determineRanges_def)
qed

subsection \<open>The ranges that are returned\<close>

lemma wrap64_id: "- (2 ^ 63) \<le> x \<Longrightarrow> x < 2 ^ 63 \<Longrightarrow> wrap64 x = x"
  by (simp add: wrap64_def)

text \<open>
  One adjustment of a middle range, if it ends. The range begins at \<open>begin\<close>, one
  past a delimiter when that is inside the file, and the buffer holds the
  delimiter whenever the probe is at or past the end of the file. Then the end
  found is not below \<open>begin\<close>: the scan stops at the delimiter before \<open>begin\<close>
  at the latest.
\<close>

lemma adjustEnd_middle_post:
  assumes res: "adjustEnd fl d e s = Some (e', s')"
    and pre: "begin - 1 \<le> e" "1 \<le> begin" "e < 2 ^ 62"
      "begin \<le> int (length fl) \<longrightarrow> fl ! nat (begin - 1) = d"
      "int (length fl) \<le> e \<longrightarrow> b0 s = d"
  shows "begin \<le> e' \<and> e' \<le> e + 1 \<and> (e' \<le> int (length fl) \<longrightarrow> fl ! nat (e' - 1) = d) \<and> b0 s' = d"
proof -
  have "begin - 1 \<le> e \<longrightarrow> 1 \<le> begin \<longrightarrow> e < 2 ^ 62 \<longrightarrow>
        (begin \<le> int (length fl) \<longrightarrow> fl ! nat (begin - 1) = d) \<longrightarrow>
        (int (length fl) \<le> e \<longrightarrow> b0 s = d) \<longrightarrow>
        begin \<le> fst (e', s') \<and> fst (e', s') \<le> e + 1 \<and>
        (fst (e', s') \<le> int (length fl) \<longrightarrow> fl ! nat (fst (e', s') - 1) = d) \<and> b0 (snd (e', s')) = d"
    using res
  proof (rule adjustEnd.raw_induct [rotated 1, where P = "\<lambda>fl d e s r.
        begin - 1 \<le> e \<longrightarrow> 1 \<le> begin \<longrightarrow> e < 2 ^ 62 \<longrightarrow>
        (begin \<le> int (length fl) \<longrightarrow> fl ! nat (begin - 1) = d) \<longrightarrow>
        (int (length fl) \<le> e \<longrightarrow> b0 s = d) \<longrightarrow>
        begin \<le> fst r \<and> fst r \<le> e + 1 \<and>
        (fst r \<le> int (length fl) \<longrightarrow> fl ! nat (fst r - 1) = d) \<and> b0 (snd r) = d"])
    fix g :: "byte list \<Rightarrow> byte \<Rightarrow> int \<Rightarrow> fstate \<Rightarrow> (int \<times> fstate) option"
    fix fl d e s r
    assume IH: "\<And>fl d e s r. g fl d e s = Some r \<Longrightarrow>
        begin - 1 \<le> e \<longrightarrow> 1 \<le> begin \<longrightarrow> e < 2 ^ 62 \<longrightarrow>
        (begin \<le> int (length fl) \<longrightarrow> fl ! nat (begin - 1) = d) \<longrightarrow>
        (int (length fl) \<le> e \<longrightarrow> b0 s = d) \<longrightarrow>
        begin \<le> fst r \<and> fst r \<le> e + 1 \<and>
        (fst r \<le> int (length fl) \<longrightarrow> fl ! nat (fst r - 1) = d) \<and> b0 (snd r) = d"
    assume step: "(let t = Read1 fl (Seek0 e s)
                   in if b0 t = d then Some (wrap64 (e + 1), t)
                      else g fl d (wrap64 (e - 1)) t) = Some r"
    show "begin - 1 \<le> e \<longrightarrow> 1 \<le> begin \<longrightarrow> e < 2 ^ 62 \<longrightarrow>
        (begin \<le> int (length fl) \<longrightarrow> fl ! nat (begin - 1) = d) \<longrightarrow>
        (int (length fl) \<le> e \<longrightarrow> b0 s = d) \<longrightarrow>
        begin \<le> fst r \<and> fst r \<le> e + 1 \<and>
        (fst r \<le> int (length fl) \<longrightarrow> fl ! nat (fst r - 1) = d) \<and> b0 (snd r) = d"
    proof (intro impI)
      assume p: "begin - 1 \<le> e" "1 \<le> begin" "e < 2 ^ 62"
        "begin \<le> int (length fl) \<longrightarrow> fl ! nat (begin - 1) = d"
        "int (length fl) \<le> e \<longrightarrow> b0 s = d"
      let ?t = "Read1 fl (Seek0 e s)"
      from p have e0: "0 \<le> e" by simp
      have w1: "wrap64 (e + 1) = e + 1" and w2: "wrap64 (e - 1) = e - 1"
        using p e0 by (simp_all add: wrap64_id)
      have t: "?t = (if e < int (length fl) then \<lparr>offset = e + 1, b0 = fl ! nat e\<rparr>
                     else s\<lparr>offset := e\<rparr>)"
        using e0 by (simp add: Read1_def Seek0_def)
      show "begin \<le> fst r \<and> fst r \<le> e + 1 \<and>
        (fst r \<le> int (length fl) \<longrightarrow> fl ! nat (fst r - 1) = d) \<and> b0 (snd r) = d"
      proof (cases "b0 ?t = d")
        case True
        with step have r: "r = (e + 1, ?t)" by (simp add: Let_def w1)
        have "e + 1 \<le> int (length fl) \<longrightarrow> fl ! nat e = d"
          using True t by (auto split: if_splits)
        with r True p show ?thesis by simp
      next
        case False
        with step have g: "g fl d (e - 1) ?t = Some r" by (simp add: Let_def w2)
        from False t p(5) have inb: "e < int (length fl)" by (auto split: if_splits)
        with False t have ne: "fl ! nat e \<noteq> d" by simp
        have "e \<noteq> begin - 1"
          using ne p(4) inb by auto
        with p(1) have "begin - 1 \<le> e - 1" by simp
        moreover have "e - 1 < 2 ^ 62" using p(3) by simp
        moreover have "int (length fl) \<le> e - 1 \<longrightarrow> b0 ?t = d" using inb by simp
        ultimately have "begin \<le> fst r \<and> fst r \<le> e - 1 + 1 \<and>
            (fst r \<le> int (length fl) \<longrightarrow> fl ! nat (fst r - 1) = d) \<and> b0 (snd r) = d"
          using IH [OF g] p(2,4) by blast
        then show ?thesis by simp
      qed
    qed
  qed
  with pre show ?thesis by simp
qed

text \<open>
  The adjustment of the first range, if it ends: every step keeps the invariant
  \<open>firstInv\<close> or leaves the loop with \<open>firstPost\<close>.
\<close>

lemma firstInv_step:
  assumes inv: "firstInv fl d a e s"
    and a: "1 \<le> a" "a < int (length fl)" "int (length fl) < 2 ^ 62"
  shows "let t = Read1 fl (Seek0 e s)
         in if b0 t = d then firstPost fl d a (wrap64 (e + 1), t)
            else firstInv fl d a (wrap64 (e - 1)) t"
proof -
  let ?L = "int (length fl)"
  let ?t = "Read1 fl (Seek0 e s)"
  consider (A) "0 \<le> e" "e \<le> a" "\<forall>j. e < j \<and> j \<le> a \<longrightarrow> fl ! nat j \<noteq> d"
    | (B) "e < 0" "- ?L \<le> e" "offset s = - e" "b0 s \<noteq> d"
          "\<forall>j. 0 \<le> j \<and> (j \<le> a \<or> j < - e) \<and> j < ?L \<longrightarrow> fl ! nat j \<noteq> d"
    | (C) "d \<notin> set fl" "b0 s \<noteq> d"
    using inv unfolding firstInv_def by blast
  then show ?thesis
  proof cases
    case A
    then have t: "?t = \<lparr>offset = e + 1, b0 = fl ! nat e\<rparr>"
      using a by (simp add: Read1_def Seek0_def)
    have w: "wrap64 (e + 1) = e + 1" "wrap64 (e - 1) = e - 1"
      using A a by (simp_all add: wrap64_id)
    show ?thesis
    proof (cases "fl ! nat e = d")
      case True
      with A t w show ?thesis by (simp add: firstPost_def)
    next
      case False
      show ?thesis
      proof (cases "e = 0")
        case True
        have "\<forall>j. 0 \<le> j \<and> (j \<le> a \<or> j < 1) \<and> j < ?L \<longrightarrow> fl ! nat j \<noteq> d"
        proof (intro allI impI)
          fix j assume j: "0 \<le> j \<and> (j \<le> a \<or> j < 1) \<and> j < ?L"
          show "fl ! nat j \<noteq> d"
          proof (cases "j = 0")
            case True
            with False \<open>e = 0\<close> show ?thesis by simp
          next
            case False
            with j \<open>e = 0\<close> have "e < j \<and> j \<le> a" by auto
            with A(3) show ?thesis by blast
          qed
        qed
        with True False t w a show ?thesis
          by (simp add: firstInv_def)
      next
        case ne: False
        have "\<forall>j. e - 1 < j \<and> j \<le> a \<longrightarrow> fl ! nat j \<noteq> d"
        proof (intro allI impI)
          fix j assume j: "e - 1 < j \<and> j \<le> a"
          show "fl ! nat j \<noteq> d"
          proof (cases "j = e")
            case True
            with False show ?thesis by simp
          next
            case False
            with j have "e < j \<and> j \<le> a" by auto
            with A(3) show ?thesis by blast
          qed
        qed
        with ne False t w A show ?thesis
          by (simp add: firstInv_def)
      qed
    qed
  next
    case B
    have w: "wrap64 (e + 1) = e + 1" "wrap64 (e - 1) = e - 1"
      using B a by (simp_all add: wrap64_id)
    show ?thesis
    proof (cases "- e < ?L")
      case True
      then have t: "?t = \<lparr>offset = - e + 1, b0 = fl ! nat (- e)\<rparr>"
        using B by (simp add: Read1_def Seek0_def)
      show ?thesis
      proof (cases "fl ! nat (- e) = d")
        case eq: True
        have "e \<noteq> - 1"
        proof
          assume "e = - 1"
          have "0 \<le> (1::int) \<and> (1 \<le> a \<or> 1 < - e) \<and> 1 < ?L"
            using a by simp
          with B(5) have "fl ! nat 1 \<noteq> d" by blast
          with eq \<open>e = - 1\<close> show False by simp
        qed
        with B(1) have "e + 1 < 0" by simp
        with eq t w show ?thesis by (simp add: firstPost_def)
      next
        case ne: False
        have "\<forall>j. 0 \<le> j \<and> (j \<le> a \<or> j < - (e - 1)) \<and> j < ?L \<longrightarrow> fl ! nat j \<noteq> d"
        proof (intro allI impI)
          fix j assume j: "0 \<le> j \<and> (j \<le> a \<or> j < - (e - 1)) \<and> j < ?L"
          show "fl ! nat j \<noteq> d"
          proof (cases "j = - e")
            case True
            with ne show ?thesis by simp
          next
            case False
            with j have "0 \<le> j \<and> (j \<le> a \<or> j < - e) \<and> j < ?L" by auto
            with B(5) show ?thesis by blast
          qed
        qed
        with ne t w B True show ?thesis
          by (simp add: firstInv_def)
      qed
    next
      case False
      with B have eL: "- e = ?L" by simp
      then have t: "?t = s"
        using B by (simp add: Read1_def Seek0_def)
      have "d \<notin> set fl"
      proof
        assume "d \<in> set fl"
        then obtain i where i: "i < length fl" "fl ! i = d"
          by (auto simp: in_set_conv_nth)
        have "0 \<le> int i \<and> (int i \<le> a \<or> int i < - e) \<and> int i < ?L"
          using i eL by simp
        with B(5) have "fl ! nat (int i) \<noteq> d" by blast
        with i show False by simp
      qed
      with t B(4) show ?thesis by (simp add: firstInv_def)
    qed
  next
    case C
    have "b0 ?t = b0 s \<or> b0 ?t \<in> set fl"
      using Read1_b0 [of fl "Seek0 e s"] by (simp add: Seek0_b0)
    with C have "b0 ?t \<noteq> d" by auto
    with C show ?thesis by (simp add: firstInv_def Let_def)
  qed
qed

lemma adjustEnd_first_post:
  assumes res: "adjustEnd fl d e s = Some r"
    and inv: "firstInv fl d a e s"
    and a: "1 \<le> a" "a < int (length fl)" "int (length fl) < 2 ^ 62"
  shows "firstPost fl d a r"
proof -
  have "firstInv fl d a e s \<longrightarrow> 1 \<le> a \<longrightarrow> a < int (length fl) \<longrightarrow> int (length fl) < 2 ^ 62
          \<longrightarrow> firstPost fl d a r"
    using res
  proof (rule adjustEnd.raw_induct [rotated 1, where P = "\<lambda>fl d e s r.
        firstInv fl d a e s \<longrightarrow> 1 \<le> a \<longrightarrow> a < int (length fl) \<longrightarrow> int (length fl) < 2 ^ 62
          \<longrightarrow> firstPost fl d a r"])
    fix g :: "byte list \<Rightarrow> byte \<Rightarrow> int \<Rightarrow> fstate \<Rightarrow> (int \<times> fstate) option"
    fix fl d e s r
    assume IH: "\<And>fl d e s r. g fl d e s = Some r \<Longrightarrow>
        firstInv fl d a e s \<longrightarrow> 1 \<le> a \<longrightarrow> a < int (length fl) \<longrightarrow> int (length fl) < 2 ^ 62
          \<longrightarrow> firstPost fl d a r"
    assume step: "(let t = Read1 fl (Seek0 e s)
                   in if b0 t = d then Some (wrap64 (e + 1), t)
                      else g fl d (wrap64 (e - 1)) t) = Some r"
    show "firstInv fl d a e s \<longrightarrow> 1 \<le> a \<longrightarrow> a < int (length fl) \<longrightarrow> int (length fl) < 2 ^ 62
          \<longrightarrow> firstPost fl d a r"
    proof (intro impI)
      assume p: "firstInv fl d a e s" "1 \<le> a" "a < int (length fl)" "int (length fl) < 2 ^ 62"
      note st = firstInv_step [OF p]
      show "firstPost fl d a r"
      proof (cases "b0 (Read1 fl (Seek0 e s)) = d")
        case True
        with step st show ?thesis by (simp add: Let_def)
      next
        case False
        with step have "g fl d (wrap64 (e - 1)) (Read1 fl (Seek0 e s)) = Some r"
          by (simp add: Let_def)
        from IH [OF this] st False p show ?thesis by (simp add: Let_def)
      qed
    qed
  qed
  with inv a show ?thesis by simp
qed

text \<open>Appending a range to a chain.\<close>

lemma chained_snoc:
  "chained b (rs @ [r]) \<longleftrightarrow> chained b rs \<and> Begin r = (if rs = [] then b else End (last rs))"
  by (induction rs arbitrary: b) auto

declare middleRanges.simps [simp del]

text \<open>
  Under the same conditions the adjustments end: a middle one at the delimiter
  before its begin at the latest, the first one as soon as the file holds a
  delimiter at all.
\<close>

lemma adjustEnd_middle_returns:
  assumes "begin - 1 \<le> e" "1 \<le> begin" "e < 2 ^ 62"
      "begin \<le> int (length fl) \<longrightarrow> fl ! nat (begin - 1) = d"
      "int (length fl) \<le> e \<longrightarrow> b0 s = d"
  shows "\<exists>r. adjustEnd fl d e s = Some r"
  using assms
proof (induction "nat (e - (begin - 1))" arbitrary: e s rule: less_induct)
  case less
  let ?t = "Read1 fl (Seek0 e s)"
  from less.prems have e0: "0 \<le> e" by simp
  have w2: "wrap64 (e - 1) = e - 1"
    using less.prems e0 by (simp add: wrap64_id)
  have t: "?t = (if e < int (length fl) then \<lparr>offset = e + 1, b0 = fl ! nat e\<rparr>
                 else s\<lparr>offset := e\<rparr>)"
    using e0 by (simp add: Read1_def Seek0_def)
  show ?case
  proof (cases "b0 ?t = d")
    case True
    then show ?thesis by (subst adjustEnd.simps) (simp add: Let_def)
  next
    case False
    from False t less.prems(5) have inb: "e < int (length fl)" by (auto split: if_splits)
    with False t have ne: "fl ! nat e \<noteq> d" by simp
    have "e \<noteq> begin - 1"
      using ne less.prems(4) inb by auto
    with less.prems(1) have ge: "begin - 1 \<le> e - 1" by simp
    have "\<exists>r. adjustEnd fl d (e - 1) ?t = Some r"
    proof (rule less.hyps [OF _ ge less.prems(2) _ less.prems(4)])
      show "nat (e - 1 - (begin - 1)) < nat (e - (begin - 1))" using ge by simp
      show "e - 1 < 2 ^ 62" using less.prems(3) by simp
      show "int (length fl) \<le> e - 1 \<longrightarrow> b0 ?t = d" using inb by simp
    qed
    with False w2 show ?thesis by (subst adjustEnd.simps) (simp add: Let_def)
  qed
qed

lemma adjustEnd_first_returns:
  assumes "firstInv fl d a e s" and "d \<in> set fl"
    and "1 \<le> a" "a < int (length fl)" "int (length fl) < 2 ^ 62"
  shows "\<exists>r. adjustEnd fl d e s = Some r"
  using assms(1)
proof (induction "nat (e + int (length fl))" arbitrary: e s rule: less_induct)
  case less
  let ?t = "Read1 fl (Seek0 e s)"
  note st = firstInv_step [OF less.prems assms(3-5)]
  from less.prems assms(2,3) have range: "- int (length fl) \<le> e" "e \<le> a"
    by (auto simp: firstInv_def)
  then have w2: "wrap64 (e - 1) = e - 1"
    using assms(4,5) by (simp add: wrap64_id)
  show ?case
  proof (cases "b0 ?t = d")
    case True
    then show ?thesis by (subst adjustEnd.simps) (simp add: Let_def)
  next
    case False
    with st w2 have inv': "firstInv fl d a (e - 1) ?t" by (simp add: Let_def)
    with assms(2) have "- int (length fl) \<le> e - 1"
      by (auto simp: firstInv_def)
    then have "nat (e - 1 + int (length fl)) < nat (e + int (length fl))" by simp
    from less.hyps [OF this inv'] False w2 show ?thesis
      by (subst adjustEnd.simps) (simp add: Let_def)
  qed
qed

text \<open>
  The loop over the middle ranges returns and keeps \<open>goodRanges\<close>; it leaves
  one range for every worker but the last.
\<close>

lemma middleRanges_total:
  assumes "goodRanges fl d a ranges" and "b0 s = d" and "i = int (length ranges)"
    and "1 \<le> a" and "2 \<le> n" and "n * (a + 1) < 2 ^ 62" and "i \<le> n - 1"
  shows "\<exists>rs s'. middleRanges fl d a n i ranges s = Some (rs, s') \<and>
           goodRanges fl d a rs \<and> int (length rs) = n - 1"
  using assms
proof (induction fl d a n i ranges s rule: middleRanges.induct)
  case (1 fl d a n i ranges s)
  have n62: "n < 2 ^ 62"
  proof -
    have "n * 1 \<le> n * (a + 1)" using "1.prems"(4,5) by (intro mult_left_mono) simp_all
    with "1.prems"(6) show ?thesis by simp
  qed
  have wn: "wrap64 (n - 1) = n - 1"
    using "1.prems"(5) n62 by (simp add: wrap64_id)
  show ?case
  proof (cases "i < n - 1")
    case False
    with wn have "middleRanges fl d a n i ranges s = Some (ranges, s)"
      by (simp add: middleRanges.simps [of fl d a n i ranges s])
    moreover from False "1.prems"(3,7) have "int (length ranges) = n - 1"
      by simp
    ultimately show ?thesis
      using "1.prems"(1) by blast
  next
    case True
    let ?begin = "End (ranges ! nat (i - 1))"
    let ?e = "wrap64 (?begin + a)"
    from "1.prems"(1) have ne: "ranges \<noteq> []"
      by (simp add: goodRanges_def)
    then have len0: "Suc 0 \<le> length ranges" by (cases ranges) simp_all
    have lastr: "ranges ! nat (i - 1) = last ranges"
      using ne len0 "1.prems"(3) by (simp add: last_conv_nth nat_diff_distrib)
    have lset: "last ranges \<in> set ranges" using ne by simp
    have b1: "1 \<le> ?begin" and bd: "?begin \<le> int (length fl) \<longrightarrow> fl ! nat (?begin - 1) = d"
      and bb: "?begin \<le> i * (a + 1)"
      using "1.prems"(1,3) lset unfolding goodRanges_def lastr by auto
    have "(i + 1) * (a + 1) \<le> n * (a + 1)"
      using True "1.prems"(4) by (intro mult_right_mono) simp_all
    then have ebound: "?begin + a + 1 \<le> n * (a + 1)"
      using bb by (simp add: algebra_simps)
    then have e62: "?begin + a < 2 ^ 62" using "1.prems"(6) by simp
    have we: "?e = ?begin + a"
      using b1 "1.prems"(4) e62 by (simp add: wrap64_id)
    have "\<exists>r. adjustEnd fl d (?begin + a) s = Some r"
      using b1 bd e62 "1.prems"(2,4) by (intro adjustEnd_middle_returns [of ?begin]) simp_all
    then obtain e' t where adj: "adjustEnd fl d ?e s = Some (e', t)"
      unfolding we by auto
    have post: "?begin \<le> e' \<and> e' \<le> ?begin + a + 1 \<and>
        (e' \<le> int (length fl) \<longrightarrow> fl ! nat (e' - 1) = d) \<and> b0 t = d"
      using adjustEnd_middle_post [OF adj [unfolded we], of ?begin] b1 bd e62 "1.prems"(2,4)
      by simp
    have good': "goodRanges fl d a (ranges @ [\<lparr>Begin = ?begin, End = e'\<rparr>])"
    proof -
      have "e' \<le> (i + 1) * (a + 1)"
        using post bb by (simp add: algebra_simps)
      moreover have "1 \<le> e'"
        using post b1 by linarith
      moreover have "?begin = End (last ranges)"
        using lastr by simp
      ultimately show ?thesis
        using "1.prems"(1,3) post ne
        by (auto simp: goodRanges_def chained_snoc algebra_simps)
    qed
    have lt: "i < wrap64 (n - 1)" using True wn by simp
    have "\<exists>rs s'. middleRanges fl d a n (i + 1) (ranges @ [\<lparr>Begin = ?begin, End = e'\<rparr>]) t =
            Some (rs, s') \<and> goodRanges fl d a rs \<and> int (length rs) = n - 1"
    proof (rule "1.IH" [OF lt refl refl refl adj refl good'])
      show "b0 t = d" using post by simp
      show "i + 1 = int (length (ranges @ [\<lparr>Begin = ?begin, End = e'\<rparr>]))"
        using "1.prems"(3) by simp
      show "1 \<le> a" "2 \<le> n" "n * (a + 1) < 2 ^ 62" using "1.prems" by simp_all
      show "i + 1 \<le> n - 1" using True by simp
    qed
    with adj lt show ?thesis
      by (simp add: middleRanges.simps [of fl d a n i ranges s] Let_def)
  qed
qed

lemma mult_div_le_int:
  assumes "0 < (n::int)"
  shows "n * (x div n) \<le> x"
proof -
  have "n * (x div n) + x mod n = x" by simp
  moreover have "0 \<le> x mod n" using assms by simp
  ultimately show ?thesis by linarith
qed

lemma quo64_div:
  assumes "0 \<le> x" and "x < 2 ^ 63" and "0 < n"
  shows "quo64 x n = x div n"
proof -
  have "0 \<le> x div n" using assms by (simp add: pos_imp_zdiv_nonneg_iff)
  moreover have "x div n \<le> x"
    using assms by (metis div_by_1 int_one_le_iff_zero_less zdiv_mono2 zero_less_one)
  moreover have "sgn x * (x div n) = x div n"
    using assms(1) by (cases "x = 0") (simp_all add: sgn_if)
  ultimately show ?thesis
    using assms by (simp add: quo64_def wrap64_id sgn_if abs_if)
qed

text \<open>
  The approximate size for 2 workers or more, when it is not 0: it is at least 1
  and less than the length, and no sum that the loops form overflows.
\<close>

lemma approxSize_facts:
  assumes n: "2 \<le> n" and L: "int (length fl) < 2 ^ 61"
    and a0: "int (length fl) div n \<noteq> 0"
  shows "1 \<le> int (length fl) div n"
    and "int (length fl) div n < int (length fl)"
    and "n * (int (length fl) div n + 1) < 2 ^ 62"
proof -
  let ?L = "int (length fl)"
  let ?a = "?L div n"
  have "0 \<le> ?a" using n by (simp add: pos_imp_zdiv_nonneg_iff)
  with a0 show a1: "1 \<le> ?a" by simp
  have nL: "n \<le> ?L"
  proof (rule ccontr)
    assume "\<not> n \<le> ?L"
    then have "?L div n = 0" by (simp add: div_pos_pos_trivial)
    with a0 show False by simp
  qed
  have na: "n * ?a \<le> ?L" using n mult_div_le_int [of n ?L] by simp
  have "?a * 2 \<le> ?a * n" using n a1 by (intro mult_left_mono) simp_all
  also have "\<dots> \<le> ?L" using na by (simp add: mult.commute)
  finally show "?a < ?L" using a1 by simp
  have "n * (?a + 1) \<le> ?L + ?L" using na nL by (simp add: algebra_simps)
  with L show "n * (?a + 1) < 2 ^ 62" by simp
qed

text \<open>
  The ranges that the partitioner returns for 2 workers or more: as many as
  workers, the last one from the last boundary to the length of the file, and
  those before it chained from 0, none reversed, with every boundary at least 1
  and, when inside the file, one past a delimiter. No boundary behind the first
  goes below the start of the file.
\<close>

lemma determineRanges_ranges:
  assumes res: "determineRanges (Some fl) n d = Some (Inr rs)"
    and n: "2 \<le> n" and L: "int (length fl) < 2 ^ 61"
  shows "int (length rs) = n \<and> goodRanges fl d (int (length fl) div n) (butlast rs) \<and>
         rs = butlast rs @ [\<lparr>Begin = End (last (butlast rs)), End = int (length fl)\<rparr>]"
proof -
  let ?L = "int (length fl)"
  let ?a = "?L div n"
  have q: "quo64 ?L n = ?a"
    using n L by (intro quo64_div) simp_all
  from res n q have a0: "?a \<noteq> 0"
    by (auto simp: determineRanges_def split: if_splits)
  note a1 = approxSize_facts(1) [OF n L a0]
    and aL = approxSize_facts(2) [OF n L a0]
    and bound = approxSize_facts(3) [OF n L a0]
  from res n q a0 obtain e s where
    adj: "adjustEnd fl d ?a \<lparr>offset = ?L, b0 = CHR 0x00\<rparr> = Some (e, s)"
    and e0: "0 \<le> e"
    and rest: "(case middleRanges fl d ?a n 1 [\<lparr>Begin = 0, End = e\<rparr>] s of
                 None \<Rightarrow> None
               | Some (ranges, s') \<Rightarrow>
                   Some (Inr (ranges @
                     [\<lparr>Begin = End (ranges ! (length ranges - 1)), End = ?L\<rparr>]))) = Some (Inr rs)"
    by (auto simp: determineRanges_def Let_def split: option.splits if_splits)
  have "firstInv fl d ?a ?a \<lparr>offset = ?L, b0 = CHR 0x00\<rparr>"
    unfolding firstInv_def using a1 by auto
  from adjustEnd_first_post [OF adj this a1 aL] L e0
  have first: "b0 s = d" "1 \<le> e" "e \<le> ?a + 1" "fl ! nat (e - 1) = d"
    by (simp_all add: firstPost_def)
  then have good1: "goodRanges fl d ?a [\<lparr>Begin = 0, End = e\<rparr>]"
    by (simp add: goodRanges_def)
  from rest obtain ranges s' where
    mid: "middleRanges fl d ?a n 1 [\<lparr>Begin = 0, End = e\<rparr>] s = Some (ranges, s')"
    and rs: "rs = ranges @ [\<lparr>Begin = End (ranges ! (length ranges - 1)), End = ?L\<rparr>]"
    by (auto split: option.splits)
  from middleRanges_total [OF good1 first(1) _ a1 n bound, of 1] n mid
  have good: "goodRanges fl d ?a ranges" and len: "int (length ranges) = n - 1"
    by auto
  from good have ne: "ranges \<noteq> []" by (simp add: goodRanges_def)
  then have "ranges ! (length ranges - 1) = last ranges"
    by (simp add: last_conv_nth)
  with rs good len show ?thesis by simp
qed

lemma chained_bounds:
  assumes "chained b rs" and "\<forall>r\<in>set rs. Begin r \<le> End r" and "r \<in> set rs"
  shows "b \<le> Begin r \<and> End r \<le> End (last rs)"
  using assms
proof (induction rs arbitrary: b r)
  case Nil
  then show ?case by simp
next
  case (Cons x xs)
  show ?case
  proof (cases "r = x")
    case True
    show ?thesis
    proof (cases "xs = []")
      case True
      with \<open>r = x\<close> Cons.prems show ?thesis by simp
    next
      case False
      then have "last xs \<in> set xs" by simp
      from Cons.IH [of "End x" "last xs", OF _ _ this] Cons.prems
      have "End x \<le> Begin (last xs)" by auto
      moreover have "Begin (last xs) \<le> End (last xs)"
        using Cons.prems(2) \<open>last xs \<in> set xs\<close> by simp
      ultimately have "End x \<le> End (last xs)" by simp
      with True False Cons.prems show ?thesis by simp
    qed
  next
    case False
    with Cons.prems have rin: "r \<in> set xs" by simp
    then have "xs \<noteq> []" by auto
    from Cons.IH [of "End x" r, OF _ _ rin] Cons.prems
    have "End x \<le> Begin r \<and> End r \<le> End (last xs)" by auto
    with Cons.prems \<open>xs \<noteq> []\<close> show ?thesis by auto
  qed
qed

text \<open>
  When the last range begins inside the file, the ranges returned are a
  partition as claim C1 has it.
\<close>

lemma determineRanges_partition:
  assumes res: "determineRanges (Some fl) n d = Some (Inr rs)"
    and n: "1 \<le> n" and L: "int (length fl) < 2 ^ 61"
    and inside: "Begin (last rs) \<le> int (length fl)"
  shows "isPartition fl d n rs"
proof (cases "n = 1")
  case True
  with res have "rs = [\<lparr>Begin = 0, End = int (length fl)\<rparr>]"
    by (simp add: determineRanges_def)
  with True show ?thesis by (simp add: isPartition_def)
next
  case False
  with n have n2: "2 \<le> n" by simp
  let ?L = "int (length fl)"
  let ?ms = "butlast rs"
  from determineRanges_ranges [OF res n2 L]
  have len: "int (length rs) = n"
    and good: "goodRanges fl d (?L div n) ?ms"
    and rs: "rs = ?ms @ [\<lparr>Begin = End (last ?ms), End = ?L\<rparr>]"
    by blast+
  from good have ne: "?ms \<noteq> []" and ch: "chained 0 ?ms"
    and each: "\<forall>r\<in>set ?ms. Begin r \<le> End r \<and> 1 \<le> End r \<and>
        (End r \<le> ?L \<longrightarrow> fl ! nat (End r - 1) = d)"
    by (simp_all add: goodRanges_def)
  have lastrs: "last rs = \<lparr>Begin = End (last ?ms), End = ?L\<rparr>"
    by (subst rs) simp
  with inside have lastin: "End (last ?ms) \<le> ?L" by simp
  have le: "\<forall>r\<in>set ?ms. End r \<le> ?L"
  proof
    fix r assume "r \<in> set ?ms"
    from chained_bounds [OF ch _ this] each have "End r \<le> End (last ?ms)" by blast
    with lastin show "End r \<le> ?L" by simp
  qed
  have "chained 0 rs"
    by (subst rs) (simp add: chained_snoc ch ne)
  moreover have "\<forall>r\<in>set rs. Begin r \<le> End r"
  proof
    fix r assume "r \<in> set rs"
    then have "r \<in> set ?ms \<or> r = \<lparr>Begin = End (last ?ms), End = ?L\<rparr>"
      by (subst (asm) rs) auto
    with each lastin show "Begin r \<le> End r" by auto
  qed
  moreover have "rs \<noteq> []" using len n by auto
  moreover have "End (last rs) = ?L" using lastrs by simp
  ultimately show ?thesis
    using len each le by (simp add: isPartition_def)
qed

subsection \<open>When the partitioner returns\<close>

text \<open>
  With a delimiter in the file the partitioner returns, for every worker count
  from 1 on (the bound on the length keeps the additions from overflowing).
\<close>

lemma determineRanges_returns:
  assumes d: "d \<in> set fl" and n: "1 \<le> n" and L: "int (length fl) < 2 ^ 61"
  shows "\<exists>r. determineRanges (Some fl) n d = Some r"
proof (cases "n = 1")
  case True
  then show ?thesis by (simp add: determineRanges_def)
next
  case False
  with n have n2: "2 \<le> n" by simp
  let ?L = "int (length fl)"
  let ?a = "?L div n"
  have q: "quo64 ?L n = ?a"
    using n2 L by (intro quo64_div) simp_all
  show ?thesis
  proof (cases "?a = 0")
    case True
    with n2 q show ?thesis by (simp add: determineRanges_def)
  next
    case a0: False
    note a1 = approxSize_facts(1) [OF n2 L a0]
      and aL = approxSize_facts(2) [OF n2 L a0]
      and bound = approxSize_facts(3) [OF n2 L a0]
    have inv: "firstInv fl d ?a ?a \<lparr>offset = ?L, b0 = CHR 0x00\<rparr>"
      unfolding firstInv_def using a1 by auto
    from adjustEnd_first_returns [OF inv d a1 aL] L obtain e s where
      adj: "adjustEnd fl d ?a \<lparr>offset = ?L, b0 = CHR 0x00\<rparr> = Some (e, s)"
      by auto
    show ?thesis
    proof (cases "e < 0")
      case True
      with adj n2 q a0 show ?thesis by (simp add: determineRanges_def)
    next
      case False
      from adjustEnd_first_post [OF adj inv a1 aL] L False
      have first: "b0 s = d" "1 \<le> e" "e \<le> ?a + 1" "fl ! nat (e - 1) = d"
        by (simp_all add: firstPost_def)
      then have good1: "goodRanges fl d ?a [\<lparr>Begin = 0, End = e\<rparr>]"
        by (simp add: goodRanges_def)
      from middleRanges_total [OF good1 first(1) _ a1 n2 bound, of 1] n2
      obtain r where "middleRanges fl d ?a n 1 [\<lparr>Begin = 0, End = e\<rparr>] s = Some r"
        by auto
      with adj n2 q a0 False show ?thesis
        by (cases r) (simp add: determineRanges_def)
    qed
  qed
qed

text \<open>
  When the file holds a delimiter, but none up to the approximate size, the first
  boundary goes below 0 and the partitioner returns the error.
\<close>

lemma determineRanges_underflow_with_delimiter:
  assumes d: "d \<in> set fl" and n: "2 \<le> n" and L: "int (length fl) < 2 ^ 61"
    and a: "1 \<le> int (length fl) div n"
    and none: "d \<notin> set (take (nat (int (length fl) div n) + 1) fl)"
  shows "\<exists>e<0. determineRanges (Some fl) n d = Some (Inl (Err (InvalidRangeEnd e)))"
proof -
  let ?L = "int (length fl)"
  let ?a = "?L div n"
  have q: "quo64 ?L n = ?a"
    using n L by (intro quo64_div) simp_all
  from a have a0: "?a \<noteq> 0" by simp
  note aL = approxSize_facts(2) [OF n L a0]
  have inv: "firstInv fl d ?a ?a \<lparr>offset = ?L, b0 = CHR 0x00\<rparr>"
    unfolding firstInv_def using a by auto
  from adjustEnd_first_returns [OF inv d a aL] L obtain e s where
    adj: "adjustEnd fl d ?a \<lparr>offset = ?L, b0 = CHR 0x00\<rparr> = Some (e, s)"
    by auto
  from adjustEnd_first_post [OF adj inv a aL] L
  have post: "e < 0 \<or> (1 \<le> e \<and> e \<le> ?a + 1 \<and> fl ! nat (e - 1) = d)"
    by (simp add: firstPost_def)
  have "e < 0"
  proof (rule ccontr)
    assume "\<not> e < 0"
    with post have e: "1 \<le> e" "e \<le> ?a + 1" "fl ! nat (e - 1) = d" by simp_all
    then have "nat (e - 1) < nat ?a + 1" "nat (e - 1) < length fl"
      using aL by simp_all
    then have "fl ! nat (e - 1) \<in> set (take (nat ?a + 1) fl)"
      by (metis in_set_conv_nth length_take min_less_iff_conj nth_take)
    with e(3) none show False by simp
  qed
  with adj n q a show ?thesis
    by (simp add: determineRanges_def)
qed

subsection \<open>Claim C1\<close>

text \<open>
  Claim C1: for every file of length at least 1 and every worker count for which
  the partitioner reports no error, it returns exactly that many ranges, which
  are contiguous, do not overlap and cover exactly the file, every interior
  boundary being one byte past a record delimiter.

  The code does not do this on the file of six records \<open>A;1\<close> (24 bytes) with
  8 workers. The approximate size is 3, and the first six boundaries are 4, 8,
  ..., 24. The seventh probe is at offset 27, past the end of the file: the read
  stores nothing, the buffer still holds the newline of the probe before, and
  the loop takes it for a delimiter found at offset 27. The seventh range is
  \<open>[24, 28)\<close>, outside the file, and the last one is \<open>[28, 24)\<close>. (When the
  last range begins inside the file, the ranges returned are a partition:
  \<open>determineRanges_partition\<close>.)
\<close>

theorem determineRanges_past_end_of_file:
  "determineRanges
     (Some (concat (replicate 6 (''A;1'' @ [CHR 0x0A])))) 8 MeasurementDelimeter =
   Some (Inr [\<lparr>Begin = 0, End = 4\<rparr>, \<lparr>Begin = 4, End = 8\<rparr>, \<lparr>Begin = 8, End = 12\<rparr>,
              \<lparr>Begin = 12, End = 16\<rparr>, \<lparr>Begin = 16, End = 20\<rparr>, \<lparr>Begin = 20, End = 24\<rparr>,
              \<lparr>Begin = 24, End = 28\<rparr>, \<lparr>Begin = 28, End = 24\<rparr>])"
  by code_simp

text \<open>These eight ranges are no partition of the 24 bytes.\<close>

lemma ranges_past_end_of_file_no_partition:
  "\<not> isPartition (concat (replicate 6 (''A;1'' @ [CHR 0x0A]))) MeasurementDelimeter 8
       [\<lparr>Begin = 0, End = 4\<rparr>, \<lparr>Begin = 4, End = 8\<rparr>, \<lparr>Begin = 8, End = 12\<rparr>,
        \<lparr>Begin = 12, End = 16\<rparr>, \<lparr>Begin = 16, End = 20\<rparr>, \<lparr>Begin = 20, End = 24\<rparr>,
        \<lparr>Begin = 24, End = 28\<rparr>, \<lparr>Begin = 28, End = 24\<rparr>]"
  by (simp add: isPartition_def)

subsection \<open>Claim C6\<close>

text \<open>
  Claim C6: whenever the backward adjustment of a range boundary underflows below
  the start of the file, the partitioner fails with a configuration error rather
  than returning ranges.

  The test \<open>End < 0\<close> stands behind the adjusting loop, and the loop ends only on
  a delimiter. On the three bytes \<open>A;1\<close> (one record, no newline behind it) with
  2 workers the boundary starts at 1 and goes to 0, -1, -2, ... for ever: the
  call returns neither an error nor ranges. (With a delimiter somewhere in the
  file the claim holds: see \<open>determineRanges_underflow_with_delimiter\<close> for the
  first boundary and \<open>determineRanges_ranges\<close> for the others, which never go
  below 1.)
\<close>

theorem determineRanges_underflow_never_returns:
  "determineRanges (Some ''A;1'') 2 MeasurementDelimeter = None"
  by (rule determineRanges_no_delimiter)
     (simp_all add: MeasurementDelimeter_def quo64_def wrap64_def)

section \<open>Properties of the chunk aggregator\<close>

subsection \<open>The search for the field delimiter\<close>

declare findStationDelimeter.simps [simp del]

lemma findStationDelimeter_drop:
  "findStationDelimeter buffer pos =
     (if StationDelimeter \<in> set (drop pos buffer)
      then Inr (pos + length (takeWhile (\<lambda>c. c \<noteq> StationDelimeter) (drop pos buffer)))
      else Inl IndexOutOfRange)"
proof (induction buffer pos rule: findStationDelimeter.induct)
  case (1 buffer pos)
  show ?case
  proof (cases "length buffer \<le> pos")
    case True
    then show ?thesis by (simp add: findStationDelimeter.simps [of buffer pos])
  next
    case False
    then have d: "drop pos buffer = buffer ! pos # drop (Suc pos) buffer"
      by (simp add: Cons_nth_drop_Suc)
    show ?thesis
    proof (cases "buffer ! pos = StationDelimeter")
      case True
      with False d show ?thesis by (simp add: findStationDelimeter.simps [of buffer pos])
    next
      case ne: False
      with False d "1.IH" show ?thesis by (simp add: findStationDelimeter.simps [of buffer pos])
    qed
  qed
qed

lemma findStationDelimeter_0:
  "findStationDelimeter buffer 0 =
     (if StationDelimeter \<in> set buffer then Inr (length (stationOf buffer))
      else Inl IndexOutOfRange)"
  using findStationDelimeter_drop [of buffer 0] by (simp add: stationOf_def)

lemma take_stationOf: "take (length (stationOf buffer)) buffer = stationOf buffer"
  unfolding stationOf_def by (rule takeWhile_eq_take [symmetric])

lemma stationOf_props:
  assumes "StationDelimeter \<in> set buffer"
  shows "length (stationOf buffer) < length buffer"
    and "buffer ! length (stationOf buffer) = StationDelimeter"
    and "StationDelimeter \<notin> set (stationOf buffer)"
proof -
  show l: "length (stationOf buffer) < length buffer"
  proof (rule ccontr)
    assume "\<not> length (stationOf buffer) < length buffer"
    then have "length (takeWhile (\<lambda>c. c \<noteq> StationDelimeter) buffer) = length buffer"
      using length_takeWhile_le [of "\<lambda>c. c \<noteq> StationDelimeter" buffer]
      by (simp add: stationOf_def)
    then have "takeWhile (\<lambda>c. c \<noteq> StationDelimeter) buffer = buffer"
      by (metis takeWhile_eq_take take_all order_refl)
    then have "\<forall>c\<in>set buffer. c \<noteq> StationDelimeter"
      by (simp add: takeWhile_eq_all_conv)
    with assms show False by blast
  qed
  show "buffer ! length (stationOf buffer) = StationDelimeter"
    using nth_length_takeWhile [of "\<lambda>c. c \<noteq> StationDelimeter" buffer] l
    by (simp add: stationOf_def)
  show "StationDelimeter \<notin> set (stationOf buffer)"
    unfolding stationOf_def by (auto dest: set_takeWhileD)
qed

subsection \<open>The loop over the records, as a fold\<close>

lemma observeAll_Nil: "observeAll rd [] = rd"
  by (simp add: observeAll_def)

lemma observeAll_Cons: "observeAll rd ((k, v) # obs) = observeAll (observe k v rd) obs"
  by (simp add: observeAll_def)

lemma parseErrors_Nil: "parseErrors PF [] = []"
  by (simp add: parseErrors_def)

lemma parseErrors_Cons:
  "parseErrors PF (t # ts) =
     (case snd (PF (valueOf t)) of None \<Rightarrow> [] | Some e \<Rightarrow> [\<lparr>Measurements = [], Error = Some e\<rparr>])
     @ parseErrors PF ts"
  by (simp add: parseErrors_def)

declare taskLoop.simps(2) [simp del]

lemma taskLoop_step:
  assumes "StationDelimeter \<in> set buffer"
  shows "taskLoop PF (buffer # rest) rd sent =
           taskLoop PF rest (observe (stationOf buffer) (fst (PF (valueOf buffer))) rd)
             (sent @ parseErrors PF [buffer])"
  using assms
  by (simp add: taskLoop.simps(2) findStationDelimeter_0 take_stationOf valueOf_def
        parseErrors_def split: prod.split option.split)

lemma taskLoop_panic:
  assumes "StationDelimeter \<notin> set buffer"
  shows "taskLoop PF (buffer # rest) rd sent = (rd, sent, Some IndexOutOfRange)"
  using assms by (simp add: taskLoop.simps(2) findStationDelimeter_0)

lemma taskLoop_all:
  assumes "\<forall>t\<in>set tokens. StationDelimeter \<in> set t"
  shows "taskLoop PF tokens rd sent =
           (observeAll rd (map (observation PF) tokens), sent @ parseErrors PF tokens, None)"
  using assms
proof (induction tokens arbitrary: rd sent)
  case Nil
  then show ?case by (simp add: observeAll_Nil parseErrors_Nil)
next
  case (Cons t ts)
  then show ?case
    by (simp add: taskLoop_step observation_def observeAll_Cons parseErrors_Cons parseErrors_Nil)
qed


subsection \<open>The local mapping\<close>

lemma map_of_observe:
  "map_of (observe k v rd) =
     (map_of rd)(k \<mapsto>
        (case map_of rd k of
           None \<Rightarrow> \<lparr>Min_m = v, Max_m = v, Sum_m = v, Count_m = 1\<rparr>
         | Some m \<Rightarrow> \<lparr>Min_m = min (Min_m m) v, Max_m = max (Max_m m) v,
                      Sum_m = Sum_m m + v, Count_m = Count_m m + 1\<rparr>))"
proof (cases "map_of rd k")
  case None
  then show ?thesis
    by (auto simp: observe_def map_add_def fun_eq_iff split: option.split)
next
  case (Some m)
  then show ?thesis
    by (simp add: observe_def update_conv')
qed

lemma distinct_observe:
  "distinct (map fst rd) \<Longrightarrow> distinct (map fst (observe k v rd))"
  by (auto simp: observe_def distinct_update map_of_eq_None_iff split: option.split)



lemma dom_observeAll:
  "dom (map_of (observeAll rd obs)) = dom (map_of rd) \<union> fst ` set obs"
proof (induction obs arbitrary: rd)
  case Nil
  then show ?case by (simp add: observeAll_Nil)
next
  case (Cons ob obs)
  obtain k' v where ob: "ob = (k', v)" by (cases ob)
  show ?case
    by (auto simp add: ob observeAll_Cons Cons.IH map_of_observe)
qed



text \<open>One record without a field delimiter is enough to end the loop in the panic.\<close>

lemma taskLoop_some_panic:
  assumes "\<exists>t\<in>set tokens. StationDelimeter \<notin> set t"
  shows "snd (snd (taskLoop PF tokens rd sent)) = Some IndexOutOfRange"
  using assms
proof (induction tokens arbitrary: rd sent)
  case Nil
  then show ?case by simp
next
  case (Cons t ts)
  show ?case
  proof (cases "StationDelimeter \<in> set t")
    case True
    with Cons.prems have "\<exists>t\<in>set ts. StationDelimeter \<notin> set t" by auto
    from Cons.IH [OF this] True show ?thesis by (simp add: taskLoop_step)
  next
    case False
    then show ?thesis by (simp add: taskLoop_panic)
  qed
qed

subsection \<open>Claim C9\<close>

text \<open>
  Claim C9: the scan for the field delimiter is total only on records that hold
  a field delimiter; on a record without one it indexes past the end of the
  record buffer, which is an out-of-range access and not a parse error sent as
  the task's result.

  On a buffer without the delimiter the search ends in the panic, and so does
  the loop over the records, with the mapping and the sent results as they were:
  no error result is sent for the record. On a buffer with a delimiter the
  search returns the position of the first one, inside the buffer.
\<close>

theorem findStationDelimeter_out_of_range:
  "(StationDelimeter \<notin> set buffer \<longrightarrow>
      findStationDelimeter buffer 0 = Inl IndexOutOfRange \<and>
      taskLoop PF (buffer # rest) rd sent = (rd, sent, Some IndexOutOfRange)) \<and>
   (StationDelimeter \<in> set buffer \<longrightarrow>
      (\<exists>pos. findStationDelimeter buffer 0 = Inr pos \<and> pos < length buffer \<and>
             buffer ! pos = StationDelimeter \<and> StationDelimeter \<notin> set (take pos buffer)))"
  by (auto simp: findStationDelimeter_0 taskLoop_panic stationOf_props take_stationOf)

text \<open>The record \<open>B2\<close> has no delimiter and ends the task; \<open>A;1\<close> has one.\<close>

theorem findStationDelimeter_out_of_range_witness:
  "StationDelimeter \<notin> set ''B2'' \<and>
   findStationDelimeter ''B2'' 0 = Inl IndexOutOfRange \<and>
   taskLoop (\<lambda>s. (0::int, None)) [''B2'', ''A;1''] [] [] = ([], [], Some IndexOutOfRange) \<and>
   StationDelimeter \<in> set ''A;1'' \<and>
   (\<exists>pos. findStationDelimeter ''A;1'' 0 = Inr pos \<and> pos < length ''A;1'' \<and>
          ''A;1'' ! pos = StationDelimeter \<and> StationDelimeter \<notin> set (take pos ''A;1''))"
proof -
  have a: "StationDelimeter \<notin> set ''B2''" and b: "StationDelimeter \<in> set ''A;1''"
    by (simp_all add: StationDelimeter_def)
  show ?thesis
    using a b
      findStationDelimeter_out_of_range [of "''B2''" "\<lambda>s. (0::int, None)" "[''A;1'']" "[]" "[]"]
      findStationDelimeter_out_of_range [of "''A;1''" "\<lambda>s. (0::int, None)" "[]" "[]" "[]"]
    by blast
qed

subsection \<open>Claim C2\<close>

text \<open>
  Claim C2: every task produces exactly one result; when the parse of a value
  fails, the task ends at once, its single result is the parse error, and it
  neither aggregates the rest of its chunk nor sends a further result.

  The code does not do this. On the chunk of the two records \<open>A;x\<close> and
  \<open>B;1\<close>, with any parser that rejects \<open>x\<close> with the error \<open>e\<close> and the value
  \<open>z\<close> and accepts \<open>1\<close>, the task sends two results: the error, and then a
  success whose mapping holds the value \<open>z\<close> of the failed parse for \<open>A\<close> and the
  record \<open>B\<close> behind it.
\<close>

theorem task_goes_on_after_parse_error:
  fixes PF :: "string \<Rightarrow> 'v::{linorder,plus} \<times> error option"
  assumes "PF ''x'' = (z, Some e)" and "PF ''1'' = (v, None)"
  shows "task PF (Some (''A;x'' @ [CHR 0x0A] @ ''B;1'' @ [CHR 0x0A])) \<lparr>Begin = 0, End = 8\<rparr> =
     ([\<lparr>Measurements = [], Error = Some e\<rparr>,
       \<lparr>Measurements =
          [(''A'', \<lparr>Min_m = z, Max_m = z, Sum_m = z, Count_m = 1\<rparr>),
           (''B'', \<lparr>Min_m = v, Max_m = v, Sum_m = v, Count_m = 1\<rparr>)],
        Error = None\<rparr>], None)"
proof -
  have sec: "sectionBytes (''A;x'' @ [CHR 0x0A] @ ''B;1'' @ [CHR 0x0A]) 0 (wrap64 8) =
      ''A;x'' @ [CHR 0x0A] @ ''B;1'' @ [CHR 0x0A]"
    by (simp add: sectionBytes_def wrap64_def)
  have scan: "scanLines MaxScanTokenSize [] (''A;x'' @ [CHR 0x0A] @ ''B;1'' @ [CHR 0x0A]) =
      ([''A;x'', ''B;1''], None)"
    by (simp add: MaxScanTokenSize_def dropCR_def)
  have all: "\<forall>t\<in>set [''A;x'', ''B;1'']. StationDelimeter \<in> set t"
    by (simp add: StationDelimeter_def)
  have obs: "[observation PF ''A;x'', observation PF ''B;1''] = [(''A'', z), (''B'', v)]"
    using assms by (simp add: observation_def stationOf_def valueOf_def StationDelimeter_def)
  have errs: "parseErrors PF [''A;x'', ''B;1''] = [\<lparr>Measurements = [], Error = Some e\<rparr>]"
    using assms by (simp add: parseErrors_def stationOf_def valueOf_def StationDelimeter_def)
  have agg: "observeAll [] [(''A'', z), (''B'', v)] =
      [(''A'', \<lparr>Min_m = z, Max_m = z, Sum_m = z, Count_m = 1\<rparr>),
       (''B'', \<lparr>Min_m = v, Max_m = v, Sum_m = v, Count_m = 1\<rparr>)]"
    by (simp add: observeAll_def observe_def)
  show ?thesis
    by (simp add: task_def sec scan taskLoop_all [OF all] obs errs agg del: append.simps)
qed

text \<open>A parser that knows the literal \<open>1\<close> only, like \<open>ParseFloat\<close> with value 0 on a syntax error.\<close>

theorem task_goes_on_after_parse_error_witness:
  "(\<lambda>s. if s = ''1'' then (1::int, None) else (0, Some (NumError s))) ''x''
      = (0, Some (NumError ''x'')) \<and>
   (\<lambda>s. if s = ''1'' then (1::int, None) else (0, Some (NumError s))) ''1'' = (1, None) \<and>
   task (\<lambda>s. if s = ''1'' then (1::int, None) else (0, Some (NumError s)))
     (Some (''A;x'' @ [CHR 0x0A] @ ''B;1'' @ [CHR 0x0A])) \<lparr>Begin = 0, End = 8\<rparr> =
     ([\<lparr>Measurements = [], Error = Some (NumError ''x'')\<rparr>,
       \<lparr>Measurements =
          [(''A'', \<lparr>Min_m = 0, Max_m = 0, Sum_m = 0, Count_m = 1\<rparr>),
           (''B'', \<lparr>Min_m = 1, Max_m = 1, Sum_m = 1, Count_m = 1\<rparr>)],
        Error = None\<rparr>], None)"
proof -
  let ?PF = "\<lambda>s. if s = ''1'' then (1::int, None) else (0, Some (NumError s))"
  have a: "?PF ''x'' = (0, Some (NumError ''x''))" and b: "?PF ''1'' = (1, None)"
    by simp_all
  from a b task_goes_on_after_parse_error [of ?PF, OF a b] show ?thesis by blast
qed

subsection \<open>Claim C7\<close>



subsection \<open>The record reader\<close>

lemma scanLines_too_long:
  assumes "maxTok \<le> length cur" and "cur \<noteq> []"
  shows "scanLines maxTok cur data = ([], Some ErrTooLong)"
  using assms by (induction data arbitrary: cur) auto

lemma scanLines_accumulate:
  assumes "CHR 0x0A \<notin> set ln"
  shows "scanLines maxTok cur (ln @ data) = scanLines maxTok (cur @ ln) data"
  using assms by (induction ln arbitrary: cur) auto

lemma scanLines_line:
  assumes "CHR 0x0A \<notin> set ln" and "length ln < maxTok"
  shows "scanLines maxTok [] (ln @ CHR 0x0A # data) =
           (case scanLines maxTok [] data of (toks, e) \<Rightarrow> (dropCR ln # toks, e))"
  using assms by (simp add: scanLines_accumulate)

lemma scanLines_long_line:
  assumes "CHR 0x0A \<notin> set ln" and "maxTok \<le> length ln" and "ln \<noteq> []"
  shows "scanLines maxTok [] (ln @ data) = ([], Some ErrTooLong)"
  using assms by (simp add: scanLines_accumulate scanLines_too_long)

lemma sectionBytes_whole:
  assumes "int (length fl) < 2 ^ 63"
  shows "sectionBytes fl 0 (wrap64 (int (length fl) - 0)) = fl"
proof -
  have "wrap64 (int (length fl)) = int (length fl)"
    using assms by (simp add: wrap64_def)
  then show ?thesis
    using assms by (simp add: sectionBytes_def)
qed

subsection \<open>Claim C10\<close>

text \<open>
  Claim C10: the aggregator never looks at the record reader's error behind its
  scan loop; when scanning stops early on a reader error, such as a record
  longer than the reader's largest token, the task still sends a success result
  with the records aggregated before the stop, and no error.

  Whatever error the scanner ends with, the task sends what the tokens delivered
  before it make it send: the errors of their failed parses, if any, and then
  the success result with the mapping of exactly these tokens. The scanner's
  error is in none of them.
\<close>

theorem task_ignores_scanner_error:
  fixes PF :: "string \<Rightarrow> 'v::{linorder,plus} \<times> error option"
  assumes "scanLines MaxScanTokenSize []
             (sectionBytes fl (Begin r) (wrap64 (End r - Begin r))) = (tokens, Some e)"
    and "\<forall>t\<in>set tokens. StationDelimeter \<in> set t"
  shows "task PF (Some fl) r =
           (parseErrors PF tokens @
            [\<lparr>Measurements = observeAll [] (map (observation PF) tokens), Error = None\<rparr>],
            None)"
  using assms(1) by (simp add: task_def taskLoop_all [OF assms(2)])

text \<open>
  A chunk with a record of 65536 bytes between two good ones: the scanner
  delivers the first record and stops with \<open>ErrTooLong\<close>; the task sends one
  success result with the first record only, and the record \<open>B;1\<close> is lost
  without a word.
\<close>

theorem task_ignores_scanner_error_witness:
  "scanLines MaxScanTokenSize []
     (sectionBytes (''A;1'' @ CHR 0x0A # replicate 65536 (CHR ''x'') @ CHR 0x0A # ''B;1'' @ [CHR 0x0A])
        (Begin \<lparr>Begin = 0, End = 65545\<rparr>)
        (wrap64 (End \<lparr>Begin = 0, End = 65545\<rparr> - Begin \<lparr>Begin = 0, End = 65545\<rparr>))) =
     ([''A;1''], Some ErrTooLong) \<and>
   StationDelimeter \<in> set ''A;1'' \<and>
   task (\<lambda>s. if s = ''1'' then (1::int, None) else (0, Some (NumError s)))
     (Some (''A;1'' @ CHR 0x0A # replicate 65536 (CHR ''x'') @ CHR 0x0A # ''B;1'' @ [CHR 0x0A]))
     \<lparr>Begin = 0, End = 65545\<rparr> =
     ([\<lparr>Measurements = [(''A'', \<lparr>Min_m = 1, Max_m = 1, Sum_m = 1, Count_m = 1\<rparr>)],
        Error = None\<rparr>], None)"
proof -
  let ?PF = "\<lambda>s. if s = ''1'' then (1::int, None) else (0, Some (NumError s))"
  let ?long = "replicate 65536 (CHR ''x'')"
  let ?fl = "''A;1'' @ CHR 0x0A # ?long @ CHR 0x0A # ''B;1'' @ [CHR 0x0A]"
  let ?r = "\<lparr>Begin = 0, End = 65545\<rparr>"
  have len: "int (length ?fl) = 65545"
    by simp
  have sec: "sectionBytes ?fl (Begin ?r) (wrap64 (End ?r - Begin ?r)) = ?fl"
    using sectionBytes_whole [of ?fl] by (simp only: len) simp
  have long: "scanLines MaxScanTokenSize [] (?long @ data) = ([], Some ErrTooLong)" for data
    by (rule scanLines_long_line) (simp_all add: MaxScanTokenSize_def)
  have "scanLines MaxScanTokenSize [] ?fl =
      (case scanLines MaxScanTokenSize [] (?long @ CHR 0x0A # ''B;1'' @ [CHR 0x0A]) of
         (toks, e) \<Rightarrow> (dropCR ''A;1'' # toks, e))"
    by (rule scanLines_line) (simp_all add: MaxScanTokenSize_def)
  then have scan: "scanLines MaxScanTokenSize [] ?fl = ([''A;1''], Some ErrTooLong)"
    by (simp add: long dropCR_def)
  have a: "scanLines MaxScanTokenSize []
      (sectionBytes ?fl (Begin ?r) (wrap64 (End ?r - Begin ?r))) = ([''A;1''], Some ErrTooLong)"
    by (simp only: sec scan)
  have b: "\<forall>t\<in>set [''A;1'']. StationDelimeter \<in> set t"
    by (simp add: StationDelimeter_def)
  have c: "parseErrors ?PF [''A;1''] = []"
    by (simp add: parseErrors_def valueOf_def stationOf_def StationDelimeter_def)
  have d: "observeAll [] (map (observation ?PF) [''A;1'']) =
      [(''A'', \<lparr>Min_m = 1, Max_m = 1, Sum_m = 1, Count_m = 1\<rparr>)]"
    by (simp add: observeAll_def observation_def observe_def valueOf_def stationOf_def
          StationDelimeter_def)
  from task_ignores_scanner_error [of ?fl ?r "[''A;1'']" ErrTooLong ?PF, OF a b]
  have "task ?PF (Some ?fl) ?r =
      ([\<lparr>Measurements = [(''A'', \<lparr>Min_m = 1, Max_m = 1, Sum_m = 1, Count_m = 1\<rparr>)],
         Error = None\<rparr>], None)"
    by (simp only: c d append_Nil)
  moreover have "StationDelimeter \<in> set ''A;1''"
    using b by simp
  ultimately show ?thesis using a by blast
qed

section \<open>Properties of the merger and the formatter\<close>

subsection \<open>The merge of one worker's mapping\<close>

text \<open>
  The mappings are association lists with distinct keys, and as a mapping the
  merge does not depend on the order in which the worker's entries are gone
  through (Go leaves the order of \<open>range\<close> over a map open).
\<close>

lemma map_of_mergeEntry:
  "map_of (mergeEntry rd (k, m)) = (map_of rd)(k \<mapsto> combined (map_of rd k) m)"
proof (cases "map_of rd k")
  case None
  then show ?thesis
    by (auto simp: mergeEntry_def combined_def map_add_def fun_eq_iff split: option.split)
next
  case (Some v)
  then show ?thesis
    by (simp add: mergeEntry_def combined_def update_conv')
qed

lemma distinct_mergeEntry:
  "distinct (map fst rd) \<Longrightarrow> distinct (map fst (mergeEntry rd entry))"
  by (cases entry)
     (auto simp: mergeEntry_def distinct_update map_of_eq_None_iff split: option.split)

lemma distinct_mergeReadings:
  "distinct (map fst rd) \<Longrightarrow> distinct (map fst (mergeReadings rd sub))"
  unfolding mergeReadings_def
  by (induction sub arbitrary: rd) (simp_all add: distinct_mergeEntry)

lemma distinct_observeAll:
  "distinct (map fst rd) \<Longrightarrow> distinct (map fst (observeAll rd obs))"
proof (induction obs arbitrary: rd)
  case Nil
  then show ?case by (simp add: observeAll_Nil)
next
  case (Cons ob obs)
  obtain k v where "ob = (k, v)" by (cases ob)
  with Cons show ?case by (simp add: observeAll_Cons distinct_observe)
qed

lemma map_of_mergeReadings:
  assumes "distinct (map fst sub)"
  shows "map_of (mergeReadings rd sub) k =
     (case map_of sub k of
        None \<Rightarrow> map_of rd k
      | Some m \<Rightarrow> Some (combined (map_of rd k) m))"
  using assms
proof (induction sub arbitrary: rd)
  case Nil
  then show ?case by (simp add: mergeReadings_def)
next
  case (Cons entry sub)
  obtain k' m' where entry: "entry = (k', m')" by (cases entry)
  from Cons.prems entry have dist: "distinct (map fst sub)" and notin: "k' \<notin> fst ` set sub"
    by simp_all
  from notin have none: "map_of sub k' = None"
    by (simp add: map_of_eq_None_iff)
  have "map_of (mergeReadings rd (entry # sub)) k =
      map_of (mergeReadings (mergeEntry rd (k', m')) sub) k"
    by (simp add: mergeReadings_def entry)
  also have "\<dots> = (case map_of sub k of
        None \<Rightarrow> map_of (mergeEntry rd (k', m')) k
      | Some m \<Rightarrow> Some (combined (map_of (mergeEntry rd (k', m')) k) m))"
    by (rule Cons.IH [OF dist])
  also have "\<dots> = (case map_of (entry # sub) k of
        None \<Rightarrow> map_of rd k
      | Some m \<Rightarrow> Some (combined (map_of rd k) m))"
    using none
    by (cases "k = k'") (simp_all add: entry map_of_mergeEntry split: option.split)
  finally show ?case .
qed

subsection \<open>The receiving loop\<close>

declare mergeLoop.simps [simp del]

lemma mergeLoop_first_error_aux:
  assumes "\<forall>x\<in>set oks. Error x = None" and "Error bad = Some e"
    and "i + int (length oks) < parallel"
  shows "mergeLoop parallel i (oks @ bad # rest) readings = (Some (Inl e), rest)"
  using assms
proof (induction oks arbitrary: i readings)
  case Nil
  then show ?case by (simp add: mergeLoop.simps [of parallel i])
next
  case (Cons x oks)
  from Cons.prems have "i < parallel" and x: "Error x = None"
    and rest: "\<forall>x\<in>set oks. Error x = None" "(i + 1) + int (length oks) < parallel"
    by auto
  from Cons.IH [OF rest(1) Cons.prems(2) rest(2)] \<open>i < parallel\<close> x
  show ?case by (simp add: mergeLoop.simps [of parallel i])
qed

subsection \<open>Claim C5\<close>

text \<open>
  Claim C5: if a worker's result is an error, the merge fails with the first
  observed error, and before it returns the merger still receives the result of
  every remaining worker, so that no worker is left blocked, without computing
  on them.

  As amended: if a result that the merger receives is an error, the merge fails
  with the first such error and returns at once; the results behind it are not
  received and nothing is computed on them. (The channel is made with room for
  one result per worker, line 222; the loop itself does no draining.)
\<close>

theorem mergeLoop_returns_at_first_error:
  assumes "\<forall>x\<in>set oks. Error x = None" and "Error bad = Some e"
    and "i + int (length oks) < parallel"
  shows "mergeLoop parallel i (oks @ bad # rest) readings = (Some (Inl e), rest)"
  using assms by (rule mergeLoop_first_error_aux)

text \<open>
  Claim C5 as stated fails for two workers, the first result an error: the
  second worker's result is left in the channel when the merger returns.
\<close>

theorem mergeLoop_does_not_drain:
  "mergeLoop 2 0
     [\<lparr>Measurements = [], Error = Some (NumError ''x'')\<rparr>,
      \<lparr>Measurements = [(''B'', \<lparr>Min_m = 1::int, Max_m = 1, Sum_m = 1, Count_m = 1\<rparr>)],
       Error = None\<rparr>] [] =
   (Some (Inl (NumError ''x'')),
    [\<lparr>Measurements = [(''B'', \<lparr>Min_m = 1::int, Max_m = 1, Sum_m = 1, Count_m = 1\<rparr>)],
      Error = None\<rparr>])"
  by (simp add: mergeLoop.simps [of 2 0])

text \<open>Three workers; the error is the second result to arrive.\<close>

theorem mergeLoop_returns_at_first_error_witness:
  "Error \<lparr>Measurements = [(''B'', \<lparr>Min_m = 1::int, Max_m = 1, Sum_m = 1, Count_m = 1\<rparr>)],
          Error = None\<rparr> = None \<and>
   Error \<lparr>Measurements = ([] :: int readings), Error = Some (NumError ''x'')\<rparr> =
     Some (NumError ''x'') \<and>
   0 + int (length [\<lparr>Measurements = [(''B'', \<lparr>Min_m = 1::int, Max_m = 1, Sum_m = 1, Count_m = 1\<rparr>)],
                    Error = None\<rparr>]) < 3 \<and>
   mergeLoop 3 0
     ([\<lparr>Measurements = [(''B'', \<lparr>Min_m = 1::int, Max_m = 1, Sum_m = 1, Count_m = 1\<rparr>)],
        Error = None\<rparr>] @
      \<lparr>Measurements = [], Error = Some (NumError ''x'')\<rparr> #
      [\<lparr>Measurements = [(''A'', \<lparr>Min_m = 2, Max_m = 2, Sum_m = 2, Count_m = 1\<rparr>)],
        Error = None\<rparr>]) [] =
   (Some (Inl (NumError ''x'')),
    [\<lparr>Measurements = [(''A'', \<lparr>Min_m = 2, Max_m = 2, Sum_m = 2, Count_m = 1\<rparr>)],
      Error = None\<rparr>])"
proof -
  let ?ok = "\<lparr>Measurements = [(''B'', \<lparr>Min_m = 1::int, Max_m = 1, Sum_m = 1, Count_m = 1\<rparr>)],
              Error = None\<rparr>"
  let ?bad = "\<lparr>Measurements = ([] :: int readings), Error = Some (NumError ''x'')\<rparr>"
  have a: "\<forall>x\<in>set [?ok]. Error x = None"
    by simp
  have b: "Error ?bad = Some (NumError ''x'')"
    by simp
  have c: "0 + int (length [?ok]) < 3"
    by simp
  have a': "Error ?ok = None"
    by simp
  from a' b c mergeLoop_returns_at_first_error [OF a b c] show ?thesis
    by blast
qed

subsection \<open>The formatter\<close>

lemma writeEntries_missing:
  assumes "station \<in> set stations" and "map_of readings station = None"
  shows "writeEntries meanOf format1 numStations readings i stations buffer =
           Inl (Panic NilDereference)"
  using assms(1)
proof (induction stations arbitrary: i buffer)
  case Nil
  then show ?case by simp
next
  case (Cons s rest)
  show ?case
  proof (cases "map_of readings s")
    case None
    then show ?thesis by simp
  next
    case (Some m)
    with assms(2) have "s \<noteq> station" by auto
    with Cons.prems have "station \<in> set rest" by simp
    from Cons.IH [OF this] Some show ?thesis by (simp add: Let_def)
  qed
qed

subsection \<open>Claim C8\<close>

text \<open>
  Claim C8: for every sorted key list and merged mapping, if a key of the list has
  no entry in the mapping, the formatter fails by returning a consistency error
  and no output string.

  The code does not return the error: for the first such key the lookup gives the
  nil pointer, and \<open>v.Sum\<close> in the line before the test of \<open>ok\<close> is read through
  it. The formatter ends in the nil-dereference panic, whatever the other keys
  are.
\<close>

theorem writeOutput_missing_entry_panics:
  assumes "station \<in> set stations" and "map_of readings station = None"
  shows "writeOutput meanOf format1 stations readings = Inl (Panic NilDereference)"
  by (simp add: writeOutput_def writeEntries_missing [OF assms])

text \<open>The keys \<open>A\<close> and \<open>B\<close> with a mapping that has \<open>A\<close> only.\<close>

theorem writeOutput_missing_entry_panics_witness:
  "''B'' \<in> set [''A'', ''B''] \<and>
   map_of [(''A'', \<lparr>Min_m = 1::int, Max_m = 3, Sum_m = 4, Count_m = 2\<rparr>)] ''B'' = None \<and>
   writeOutput (\<lambda>s c. s div c) (\<lambda>x. if x = (1::int) then ''1.0'' else ''?'') [''A'', ''B'']
     [(''A'', \<lparr>Min_m = 1::int, Max_m = 3, Sum_m = 4, Count_m = 2\<rparr>)] =
     Inl (Panic NilDereference)"
proof -
  have a: "''B'' \<in> set [''A'', ''B'']"
    by simp
  have b: "map_of [(''A'', \<lparr>Min_m = 1::int, Max_m = 3, Sum_m = 4, Count_m = 2\<rparr>)] ''B'' = None"
    by simp
  from a b writeOutput_missing_entry_panics [OF a b] show ?thesis by blast
qed

end
